theory Spec2Isabelle
  imports Main "HOL-Library.Word" "HOL-Library.Monad_Syntax"
begin

unbundle bit_operations_syntax

section \<open>Machine types and memory\<close>

text \<open>
  The decoder driver (rk3399 H.264 back end of the Rockchip VPU driver) packs bit fields
  into DMA tables that it views as arrays of 32-bit words. A table is modelled as a
  word-indexed store: address \<open>a\<close> is the \<open>a\<close>-th \<open>u32\<close> counted from the start of the
  table, so a write past the end of a record or region lands in the words that follow
  it, as it does in C. The target is little endian (arm64): bit \<open>q\<close> of the bit stream
  is bit \<open>q mod 32\<close> of word \<open>q div 32\<close>.
\<close>

type_synonym u8 = "8 word"
type_synonym u16 = "16 word"
type_synonym u32 = "32 word"
type_synonym u64 = "64 word"

type_synonym mem = "nat \<Rightarrow> u32"

definition mem_bit :: "mem \<Rightarrow> nat \<Rightarrow> bool" where
  "mem_bit m q = bit (m (q div 32)) (q mod 32)"


definition memset32 :: "mem \<Rightarrow> nat \<Rightarrow> nat \<Rightarrow> mem" where
  "memset32 m base n = (\<lambda>a. if base \<le> a \<and> a < base + n then 0 else m a)"

text \<open>
  C leaves a shift undefined when the count is not smaller than the width of the
  (promoted) left operand. Both operand kinds that occur in \<open>write_header\<close> (\<open>int\<close> and
  \<open>u32\<close>) are 32 bits wide; such a shift has no result in the model. Signed arithmetic
  wraps (the kernel is built with \<open>-fno-strict-overflow\<close>), so \<open>int\<close> and \<open>u32\<close>
  expressions are both 32-bit words.
\<close>

definition shl32 :: "u32 \<Rightarrow> u32 \<Rightarrow> u32 option" where
  "shl32 x n = (if n < 32 then Some (push_bit (unat n) x) else None)"

definition shr32 :: "u32 \<Rightarrow> u32 \<Rightarrow> u32 option" where
  "shr32 x n = (if n < 32 then Some (drop_bit (unat n) x) else None)"

section \<open>The bit-field writer\<close>

text \<open>
  \<^verbatim>\<open>void write_header(u32 value, u32 *buffer, u32 offset, u32 len)\<close>.
  \<open>buffer\<close> is the word address the pointer holds. The two statements on each word
  (\<open>&=\<close> with the complemented mask, then \<open>|=\<close> with the shifted value) are one
  update of that word. The value is not masked anywhere in the function.
\<close>

definition write_header :: "u32 \<Rightarrow> mem \<Rightarrow> nat \<Rightarrow> u32 \<Rightarrow> u32 \<Rightarrow> mem option" where
  "write_header val m buffer offset len =
    (let word = unat (offset div 32); bit = offset mod 32 in
     if len + bit > 32 then
       (let len1 = 32 - bit; len2 = len + bit - 32 in
        do {
          a \<leftarrow> shl32 1 len1;
          msk1 \<leftarrow> shl32 (a - 1) bit;
          v1 \<leftarrow> shl32 val bit;
          let m1 = m(buffer + word := (m (buffer + word) AND NOT msk1) OR v1);
          val2 \<leftarrow> shr32 val (32 - bit);
          b \<leftarrow> shl32 1 len2;
          Some (m1(buffer + word + 1 := (m1 (buffer + word + 1) AND NOT (b - 1)) OR val2))
        })
     else
       do {
         a \<leftarrow> shl32 1 len;
         msk \<leftarrow> shl32 (a - 1) bit;
         v \<leftarrow> shl32 val bit;
         Some (m(buffer + word := (m (buffer + word) AND NOT msk) OR v))
       })"

text \<open>A sequence of \<open>write_header\<close> calls \<open>(value, offset, len)\<close> on one buffer, in order.\<close>

fun write_headers :: "(u32 \<times> u32 \<times> u32) list \<Rightarrow> mem \<Rightarrow> nat \<Rightarrow> mem option" where
  "write_headers [] m buffer = Some m"
| "write_headers ((val, offset, len) # ws) m buffer =
     (case write_header val m buffer offset len of
        None \<Rightarrow> None
      | Some m' \<Rightarrow> write_headers ws m' buffer)"


section \<open>Decode parameters\<close>

text \<open>
  Modelled from the spec: \<^verbatim>\<open>struct v4l2_h264_dpb_entry\<close>, its flag masks and
  \<^verbatim>\<open>struct v4l2_ctrl_h264_decode_params\<close> are declared in the V4L2 H.264 control header,
  which is not among the sources. The spec (section 3) gives a decoded picture buffer of
  16 entries, each with a validity flag, an "active" flag, a long-term flag, frame_num
  and pic_num, top and bottom field order counts and a reference timestamp, and three
  32-entry reference lists of DPB indices. The code fixes the widths it uses: pic_num is
  stored through a \<open>u16\<close> pointer, a list entry is read into a \<open>u8\<close>. C arrays are
  functions of the index; the code reads indices 0 to 15 of \<open>dpb\<close> and 0 to 31 of the
  lists. Field names that several structures share carry a prefix (\<open>dpb_flags\<close>,
  \<open>dec_top_field_order_cnt\<close>). The three masks have the values of the kernel's header;
  the theorems speak of the active flag through \<open>dpb_active\<close> and hold for any value of
  the mask.
\<close>

record v4l2_h264_dpb_entry =
  reference_ts :: u64
  frame_num :: u16
  pic_num :: u16
  top_field_order_cnt :: u32
  bottom_field_order_cnt :: u32
  dpb_flags :: u32

definition V4L2_H264_DPB_ENTRY_FLAG_VALID :: u32 where
  "V4L2_H264_DPB_ENTRY_FLAG_VALID = 0x01"

definition V4L2_H264_DPB_ENTRY_FLAG_ACTIVE :: u32 where
  "V4L2_H264_DPB_ENTRY_FLAG_ACTIVE = 0x02"


record v4l2_ctrl_h264_decode_params =
  ref_pic_list_p0 :: "nat \<Rightarrow> u8"
  ref_pic_list_b0 :: "nat \<Rightarrow> u8"
  ref_pic_list_b1 :: "nat \<Rightarrow> u8"
  dec_top_field_order_cnt :: u32
  dec_bottom_field_order_cnt :: u32
  dpb :: "nat \<Rightarrow> v4l2_h264_dpb_entry"

text \<open>The test \<^verbatim>\<open>dpb[i].flags & V4L2_H264_DPB_ENTRY_FLAG_ACTIVE\<close>.\<close>

definition dpb_active :: "v4l2_h264_dpb_entry \<Rightarrow> bool" where
  "dpb_active e = (dpb_flags e AND V4L2_H264_DPB_ENTRY_FLAG_ACTIVE \<noteq> 0)"

section \<open>The RPS assembler\<close>

text \<open>
  The macros \<^verbatim>\<open>DPB_INFO_OFF(i, j)\<close> and \<^verbatim>\<open>DPB_INFO_LEN\<close> come from
  \<^verbatim>\<open>rk3399_vdec_regs.h\<close>, which is not among the sources, and the spec gives no
  numbers for them ("a position-and-list-specific bit offset"). They are parameters of
  the model.
\<close>

record rps_layout =
  DPB_INFO_OFF :: "nat \<Rightarrow> nat \<Rightarrow> u32"
  DPB_INFO_LEN :: u32

text \<open>
  \<^verbatim>\<open>u16 *p = (u16 *)hw_rps; p[i] = ...\<close>: a halfword store into the word-indexed
  table. Halfword \<open>i\<close> is the low half of word \<open>i div 2\<close> when \<open>i\<close> is even and the high
  half when it is odd (little endian).
\<close>

definition store_u16 :: "mem \<Rightarrow> nat \<Rightarrow> u16 \<Rightarrow> mem" where
  "store_u16 m i v =
     m(i div 2 := (m (i div 2) AND NOT (push_bit (16 * (i mod 2)) (mask 16)))
                  OR push_bit (16 * (i mod 2)) (ucast v))"

definition load_u16 :: "mem \<Rightarrow> nat \<Rightarrow> u16" where
  "load_u16 m i = ucast (drop_bit (16 * (i mod 2)) (m (i div 2)))"

text \<open>
  First loop of \<open>assemble_hw_rps\<close>:
  \<^verbatim>\<open>p[i] = (dpb[i].flags & ..._ACTIVE) ? dpb[i].pic_num : 0xff\<close> for \<open>i\<close> from 0 to 15.
\<close>

definition rps_pic_num :: "v4l2_ctrl_h264_decode_params \<Rightarrow> nat \<Rightarrow> u16" where
  "rps_pic_num dec i = (if dpb_active (dpb dec i) then pic_num (dpb dec i) else 0xff)"

definition rps_pic_nums :: "v4l2_ctrl_h264_decode_params \<Rightarrow> mem \<Rightarrow> mem" where
  "rps_pic_nums dec m = fold (\<lambda>i m. store_u16 m i (rps_pic_num dec i)) [0..<16] m"

text \<open>
  Second loop nest, \<open>j\<close> over the three lists and \<open>i\<close> over the 32 positions. The
  \<^verbatim>\<open>switch (j)\<close> selects the list (\<open>idx\<close> starts as 0); an index not below
  \<^verbatim>\<open>ARRAY_SIZE(dec_param->dpb)\<close>, which is 16, takes the \<^verbatim>\<open>continue\<close>; otherwise one
  call \<^verbatim>\<open>write_header(idx | dpb_valid << 4, (u32 *)hw_rps, DPB_INFO_OFF(i, j), DPB_INFO_LEN)\<close>
  is made, with \<^verbatim>\<open>dpb_valid = !!(dpb[idx].flags & ..._ACTIVE)\<close>. The arguments of the
  calls depend on the decode parameters only, never on the table, so the loop nest is
  the list of its calls in loop order (\<open>rps_ref_writes\<close>), run on the table by
  \<open>write_headers\<close>.
\<close>

definition rps_idx :: "v4l2_ctrl_h264_decode_params \<Rightarrow> nat \<Rightarrow> nat \<Rightarrow> u8" where
  "rps_idx dec j i =
     (if j = 0 then ref_pic_list_p0 dec i
      else if j = 1 then ref_pic_list_b0 dec i
      else if j = 2 then ref_pic_list_b1 dec i
      else 0)"

definition dpb_info :: "v4l2_ctrl_h264_decode_params \<Rightarrow> u8 \<Rightarrow> u32" where
  "dpb_info dec idx =
     (let dpb_valid = (if dpb_active (dpb dec (unat idx)) then 1 else 0) :: u8
      in ucast idx OR push_bit 4 (ucast dpb_valid))"

definition rps_ref_write ::
  "rps_layout \<Rightarrow> v4l2_ctrl_h264_decode_params \<Rightarrow> nat \<Rightarrow> nat \<Rightarrow> (u32 \<times> u32 \<times> u32) list" where
  "rps_ref_write L dec j i =
     (let idx = rps_idx dec j i in
      if 16 \<le> unat idx then []
      else [(dpb_info dec idx, DPB_INFO_OFF L i j, DPB_INFO_LEN L)])"

definition rps_ref_writes ::
  "rps_layout \<Rightarrow> v4l2_ctrl_h264_decode_params \<Rightarrow> (u32 \<times> u32 \<times> u32) list" where
  "rps_ref_writes L dec =
     concat (map (\<lambda>j. concat (map (\<lambda>i. rps_ref_write L dec j i) [0..<32])) [0..<3])"

text \<open>
  \<open>assemble_hw_rps\<close>: the table \<open>m\<close> starts at \<open>hw_rps\<close> (word 0);
  \<^verbatim>\<open>memset(hw_rps, 0, RKV_RPS_SIZE)\<close> clears its 256 bytes, that is 64 words.
\<close>

definition assemble_hw_rps ::
  "rps_layout \<Rightarrow> v4l2_ctrl_h264_decode_params \<Rightarrow> mem \<Rightarrow> mem option" where
  "assemble_hw_rps L dec m =
     write_headers (rps_ref_writes L dec) (rps_pic_nums dec (memset32 m 0 64)) 0"

text \<open>The positions \<open>(j, i)\<close> the loop nest visits, in its order.\<close>

definition rps_positions :: "(nat \<times> nat) list" where
  "rps_positions = List.product [0..<3] [0..<32]"

text \<open>
  A layout and a frame to run the assembler on. The layout has 7-bit entries from bit
  288 on, 32 per list, whose low 5 bits are the DPB-info field. The frame is the spec's
  end-to-end scenario: one active DPB entry, in slot 0, with pic_num 3, and a P0 list
  \<open>[0, 0xFF, ...]\<close>; the B lists hold \<open>0xFF\<close> throughout.
\<close>

definition sample_rps_layout :: rps_layout where
  "sample_rps_layout =
     \<lparr>DPB_INFO_OFF = (\<lambda>i j. of_nat (288 + 224 * j + 7 * i)), DPB_INFO_LEN = 5\<rparr>"

definition p_frame_params :: v4l2_ctrl_h264_decode_params where
  "p_frame_params =
     \<lparr>ref_pic_list_p0 = (\<lambda>i. if i = 0 then 0 else 0xFF),
      ref_pic_list_b0 = (\<lambda>i. 0xFF),
      ref_pic_list_b1 = (\<lambda>i. 0xFF),
      dec_top_field_order_cnt = 0,
      dec_bottom_field_order_cnt = 0,
      dpb = (\<lambda>i. \<lparr>reference_ts = 0, frame_num = 0, pic_num = (if i = 0 then 3 else 0),
                    top_field_order_cnt = 0, bottom_field_order_cnt = 0,
                    dpb_flags = (if i = 0 then 3 else 0)\<rparr>)\<rparr>"

section \<open>The PPS assembler\<close>

text \<open>
  Modelled from the spec: \<^verbatim>\<open>struct v4l2_ctrl_h264_sps\<close>, \<^verbatim>\<open>struct v4l2_ctrl_h264_pps\<close>
  and their flag masks are declared in the V4L2 H.264 control header, which is not among
  the sources. The spec (sections 3 and 4.4) names the fields that are packed: chroma
  format, bit depths, frame-num and POC bit widths, picture dimensions in macroblocks,
  entropy mode, reference-index defaults, quantisation offsets and flags, and a
  parameter-set id from 0 to 255. Only the fields that \<open>assemble_hw_pps\<close> reads are kept.
  The four quantisation offsets are signed bytes; they reach \<open>write_header\<close> converted
  to \<open>u32\<close>, that is sign extended. The masks have the values of the kernel's header;
  no theorem depends on the values that are packed.
\<close>

record v4l2_ctrl_h264_sps =
  chroma_format_idc :: u8
  bit_depth_luma_minus8 :: u8
  bit_depth_chroma_minus8 :: u8
  log2_max_frame_num_minus4 :: u8
  max_num_ref_frames :: u8
  pic_order_cnt_type :: u8
  log2_max_pic_order_cnt_lsb_minus4 :: u8
  pic_width_in_mbs_minus1 :: u16
  pic_height_in_map_units_minus1 :: u16
  sps_flags :: u32
















text \<open>\<^verbatim>\<open>#define RKV_CABAC_INIT_BUFFER_SIZE (3680 + 128)\<close>: the byte offset of
  \<open>scaling_list\<close> in \<^verbatim>\<open>struct rk3399_vdec_h264_priv_tbl\<close>, whose first member is the CABAC
  table.\<close>

definition RKV_CABAC_INIT_BUFFER_SIZE :: nat where
  "RKV_CABAC_INIT_BUFFER_SIZE = 3680 + 128"








definition sample_sps :: v4l2_ctrl_h264_sps where
  "sample_sps =
     \<lparr>chroma_format_idc = 1, bit_depth_luma_minus8 = 0, bit_depth_chroma_minus8 = 0,
      log2_max_frame_num_minus4 = 0, max_num_ref_frames = 1, pic_order_cnt_type = 0,
      log2_max_pic_order_cnt_lsb_minus4 = 0, pic_width_in_mbs_minus1 = 119,
      pic_height_in_map_units_minus1 = 67, sps_flags = 0x10\<rparr>"




section \<open>The scaling-list reorderer\<close>

text \<open>
  Modelled from the spec: \<^verbatim>\<open>struct v4l2_ctrl_h264_scaling_matrix\<close> is declared in the
  V4L2 H.264 control header, which is not among the sources. The spec (section 3) gives
  it 6 lists of 16 bytes (4x4) and 6 lists of 64 bytes (8x8); the code takes the counts
  with \<^verbatim>\<open>ARRAY_SIZE\<close> and checks at build time that the list lengths are those of the
  two zig-zag tables. A two-dimensional array is a function of the two indices.
\<close>

record v4l2_ctrl_h264_scaling_matrix =
  scaling_list_4x4 :: "nat \<Rightarrow> nat \<Rightarrow> u8"
  scaling_list_8x8 :: "nat \<Rightarrow> nat \<Rightarrow> u8"

text \<open>The destination \<^verbatim>\<open>u8 *dst = tbl->scaling_list\<close> is a byte-indexed store; byte 0 is
  the first byte of the region.\<close>

type_synonym bytes = "nat \<Rightarrow> u8"

definition zig_zag_4x4 :: "nat list" where
  "zig_zag_4x4 = [0, 1, 4, 8, 5, 2, 3, 6, 9, 12, 13, 10, 7, 11, 14, 15]"

definition zig_zag_8x8 :: "nat list" where
  "zig_zag_8x8 =
     [0,  1,  8, 16,  9,  2,  3, 10, 17, 24, 32, 25, 18, 11,  4,  5,
      12, 19, 26, 33, 40, 48, 41, 34, 27, 20, 13,  6,  7, 14, 21, 28,
      35, 42, 49, 56, 57, 50, 43, 36, 29, 22, 15, 23, 30, 37, 44, 51,
      58, 59, 52, 45, 38, 31, 39, 46, 53, 60, 61, 54, 47, 55, 62, 63]"

text \<open>
  The inner loop \<^verbatim>\<open>for (j = 0; j < list_len; ++j) dst[zig_zag[j]] = src[j];\<close> with
  \<open>dst\<close> the byte address the pointer holds, and the outer loop over the lists, which
  advances \<open>src\<close> and \<open>dst\<close> by the list length after each list.
\<close>

definition reorder_list :: "nat list \<Rightarrow> (nat \<Rightarrow> u8) \<Rightarrow> bytes \<Rightarrow> nat \<Rightarrow> bytes" where
  "reorder_list zz src d dst = fold (\<lambda>j d. d(dst + zz ! j := src j)) [0..<length zz] d"

definition reorder_lists ::
  "nat list \<Rightarrow> nat \<Rightarrow> (nat \<Rightarrow> nat \<Rightarrow> u8) \<Rightarrow> bytes \<Rightarrow> nat \<Rightarrow> bytes" where
  "reorder_lists zz num_list srcs d dst =
     fold (\<lambda>i d. reorder_list zz (srcs i) d (dst + i * length zz)) [0..<num_list] d"

text \<open>\<open>reorder_scaling_list\<close>: the six 4x4 lists, then the six 8x8 lists from where the
  first loop left \<open>dst\<close>, 6 * 16 bytes on.\<close>

definition reorder_scaling_list :: "v4l2_ctrl_h264_scaling_matrix \<Rightarrow> bytes \<Rightarrow> bytes" where
  "reorder_scaling_list scaling d =
     (let d1 = reorder_lists zig_zag_4x4 6 (scaling_list_4x4 scaling) d 0
      in reorder_lists zig_zag_8x8 6 (scaling_list_8x8 scaling) d1 (6 * length zig_zag_4x4))"

text \<open>
  The spec's inverse direction (section 8, "reordering a scaling list from raster order
  into zig-zag order"), which the driver does not contain: entry \<open>j\<close> of the zig-zag
  list is entry \<open>zigzag[j]\<close> of the raster list.
\<close>

definition raster_to_zigzag :: "nat list \<Rightarrow> u8 list \<Rightarrow> u8 list" where
  "raster_to_zigzag zz r = map (\<lambda>j. r ! (zz ! j)) [0..<length zz]"

text \<open>A matrix to run the reorderer on: entry \<open>j\<close> of 4x4 list \<open>i\<close> is \<open>16 * i + j\<close>, entry
  \<open>j\<close> of 8x8 list \<open>i\<close> is \<open>j\<close>.\<close>

definition sample_matrix :: v4l2_ctrl_h264_scaling_matrix where
  "sample_matrix =
     \<lparr>scaling_list_4x4 = (\<lambda>i j. of_nat (16 * i + j)), scaling_list_8x8 = (\<lambda>i j. of_nat j)\<rparr>"

section \<open>The register builder\<close>

text \<open>
  \<open>config_regs\<close> computes the frame layout and issues register writes through
  \<^verbatim>\<open>vdpu_write_relaxed(vpu, val, reg)\<close>, whose \<open>val\<close> is a \<open>u32\<close>. The model returns the
  writes in program order. What the function takes from the rest of the kernel is an
  input of the model: the destination format's width and height, the DMA address of the
  private table, the address and length of the bitstream buffer, the address of the
  destination buffer, and the picture-store lookup \<^verbatim>\<open>rockchip_vpu_get_ref\<close> (0 when the
  timestamp has no buffer). A \<open>dma_addr_t\<close> is 64 bits wide on the target and is cut to
  32 bits by the register write.
\<close>

record decode_ctx =
  dst_fmt_width :: u32
  dst_fmt_height :: u32
  h264_dec_priv_dma :: u64
  rlc_addr :: u64
  rlc_len :: u32
  dst_addr :: u64
  get_ref :: "u64 \<Rightarrow> u64"

text \<open>
  The registers. Their addresses are macros of \<^verbatim>\<open>rk3399_vdec_regs.h\<close>, which is not
  among the sources; the model keeps the names, taken to denote distinct registers.
\<close>

datatype reg =
    RKVDEC_REG_SYSCTRL
  | RKVDEC_REG_PICPAR
  | RKVDEC_REG_STRM_RLC_BASE
  | RKVDEC_REG_STRM_LEN
  | RKVDEC_REG_CABACTBL_PROB_BASE
  | RKVDEC_REG_DECOUT_BASE
  | RKVDEC_REG_Y_VIRSTRIDE
  | RKVDEC_REG_YUV_VIRSTRIDE
  | RKVDEC_REG_H264_POC_REFER0 nat
  | RKVDEC_REG_H264_POC_REFER1 nat
  | RKVDEC_REG_H264_POC_REFER2 nat
  | RKVDEC_REG_H264_BASE_REFER nat
  | RKVDEC_REG_H264_BASE_REFER15
  | RKVDEC_REG_CUR_POC0
  | RKVDEC_REG_CUR_POC1
  | RKVDEC_REG_PPS_BASE
  | RKVDEC_REG_RPS_BASE
  | RKVDEC_REG_AXI_DDR_RDATA
  | RKVDEC_REG_AXI_DDR_WDATA
  | RKVDEC_REG_H264_ERRINFO_BASE

text \<open>
  The value macros of the same absent header, for which the spec gives no definition;
  they are parameters of the model.
\<close>

record reg_macros =
  RKVDEC_MODE :: "u32 \<Rightarrow> u32"
  RKVDEC_MODE_H264 :: u32
  RKVDEC_Y_HOR_VIRSTRIDE :: "u32 \<Rightarrow> u32"
  RKVDEC_UV_HOR_VIRSTRIDE :: "u32 \<Rightarrow> u32"
  RKVDEC_SLICE_NUM_HIGHBIT :: u32
  RKVDEC_SLICE_NUM_LOWBITS :: "u32 \<Rightarrow> u32"
  RKVDEC_STRM_LEN :: "u32 \<Rightarrow> u32"
  RKVDEC_Y_VIRSTRIDE :: "u32 \<Rightarrow> u32"
  RKVDEC_YUV_VIRSTRIDE :: "u32 \<Rightarrow> u32"
  RKVDEC_COLMV_USED_FLAG_REF :: u64
  RKVDEC_TOPFIELD_USED_REF :: u64
  RKVDEC_BOTFIELD_USED_REF :: u64
  RKVDEC_CUR_POC :: "u32 \<Rightarrow> u32"
  RKVDEC_AXI_DDR_RDATA :: "u32 \<Rightarrow> u32"
  RKVDEC_AXI_DDR_WDATA :: "u32 \<Rightarrow> u32"

text \<open>
  Modelled from the spec: \<^verbatim>\<open>round_up\<close> is a macro of the kernel's headers, which are not
  among the sources. The spec has the vertical stride "round the frame height up to a
  16-pixel (macroblock) boundary"; for a power of two \<open>y\<close> the kernel computes this as
  \<^verbatim>\<open>(((x) - 1) | ((y) - 1)) + 1\<close> in the type of \<open>x\<close>.
\<close>

definition round_up :: "u32 \<Rightarrow> u32 \<Rightarrow> u32" where
  "round_up x y = ((x - 1) OR (y - 1)) + 1"

text \<open>The layout of \<^verbatim>\<open>struct rk3399_vdec_h264_priv_tbl\<close>: byte arrays, one after another.\<close>

definition RKV_SCALING_LIST_SIZE :: nat where
  "RKV_SCALING_LIST_SIZE = 6 * 16 + 6 * 64 + 128"

definition RKV_RPS_SIZE :: nat where
  "RKV_RPS_SIZE = 128 + 128"

definition offsetof_cabac_table :: nat where
  "offsetof_cabac_table = 0"

definition offsetof_scaling_list :: nat where
  "offsetof_scaling_list = RKV_CABAC_INIT_BUFFER_SIZE"

definition offsetof_rps :: nat where
  "offsetof_rps = offsetof_scaling_list + RKV_SCALING_LIST_SIZE"

definition offsetof_param_set :: nat where
  "offsetof_param_set = offsetof_rps + RKV_RPS_SIZE"

definition offsetof_err_info :: nat where
  "offsetof_err_info = offsetof_param_set + 256 * 32"

text \<open>The locals \<open>hor_virstride\<close>, \<open>ver_virstride\<close>, \<open>y_virstride\<close> and \<open>yuv_virstride\<close>
  (the last starts as 0 and stays 0 for a chroma format above 2).\<close>

definition hor_virstride :: "v4l2_ctrl_h264_sps \<Rightarrow> decode_ctx \<Rightarrow> u32" where
  "hor_virstride sps ctx = (ucast (bit_depth_luma_minus8 sps) + 8) * dst_fmt_width ctx div 8"

definition ver_virstride :: "decode_ctx \<Rightarrow> u32" where
  "ver_virstride ctx = round_up (dst_fmt_height ctx) 16"

definition y_virstride :: "v4l2_ctrl_h264_sps \<Rightarrow> decode_ctx \<Rightarrow> u32" where
  "y_virstride sps ctx = hor_virstride sps ctx * ver_virstride ctx"

definition yuv_virstride :: "v4l2_ctrl_h264_sps \<Rightarrow> decode_ctx \<Rightarrow> u32" where
  "yuv_virstride sps ctx =
     (if chroma_format_idc sps = 0 then y_virstride sps ctx
      else if chroma_format_idc sps = 1 then 0 + (y_virstride sps ctx + y_virstride sps ctx div 2)
      else if chroma_format_idc sps = 2 then 0 + 2 * y_virstride sps ctx
      else 0)"

definition poc_reg_tbl_top_field :: "reg list" where
  "poc_reg_tbl_top_field =
     [RKVDEC_REG_H264_POC_REFER0 0, RKVDEC_REG_H264_POC_REFER0 2,
      RKVDEC_REG_H264_POC_REFER0 4, RKVDEC_REG_H264_POC_REFER0 6,
      RKVDEC_REG_H264_POC_REFER0 8, RKVDEC_REG_H264_POC_REFER0 10,
      RKVDEC_REG_H264_POC_REFER0 12, RKVDEC_REG_H264_POC_REFER0 14,
      RKVDEC_REG_H264_POC_REFER1 1, RKVDEC_REG_H264_POC_REFER1 3,
      RKVDEC_REG_H264_POC_REFER1 5, RKVDEC_REG_H264_POC_REFER1 7,
      RKVDEC_REG_H264_POC_REFER1 9, RKVDEC_REG_H264_POC_REFER1 11,
      RKVDEC_REG_H264_POC_REFER1 13, RKVDEC_REG_H264_POC_REFER2 0]"

definition poc_reg_tbl_bottom_field :: "reg list" where
  "poc_reg_tbl_bottom_field =
     [RKVDEC_REG_H264_POC_REFER0 1, RKVDEC_REG_H264_POC_REFER0 3,
      RKVDEC_REG_H264_POC_REFER0 5, RKVDEC_REG_H264_POC_REFER0 7,
      RKVDEC_REG_H264_POC_REFER0 9, RKVDEC_REG_H264_POC_REFER0 11,
      RKVDEC_REG_H264_POC_REFER0 13, RKVDEC_REG_H264_POC_REFER1 0,
      RKVDEC_REG_H264_POC_REFER1 2, RKVDEC_REG_H264_POC_REFER1 4,
      RKVDEC_REG_H264_POC_REFER1 6, RKVDEC_REG_H264_POC_REFER1 8,
      RKVDEC_REG_H264_POC_REFER1 10, RKVDEC_REG_H264_POC_REFER1 12,
      RKVDEC_REG_H264_POC_REFER1 14, RKVDEC_REG_H264_POC_REFER2 1]"

text \<open>
  One round of the loop over the DPB slots: the reference address (the picture-store
  lookup for an active entry, the destination buffer when the entry is inactive or the
  lookup gives 0) with the three usage flags, and the three writes of the round.
\<close>

definition refer_addr ::
  "reg_macros \<Rightarrow> decode_ctx \<Rightarrow> v4l2_h264_dpb_entry \<Rightarrow> u64" where
  "refer_addr R ctx e =
     (let ref_addr = (if dpb_active e then get_ref ctx (reference_ts e) else 0);
          ref_addr = (if ref_addr = 0 then dst_addr ctx else ref_addr)
      in ref_addr OR RKVDEC_COLMV_USED_FLAG_REF R OR RKVDEC_TOPFIELD_USED_REF R
           OR RKVDEC_BOTFIELD_USED_REF R)"

definition config_ref ::
  "reg_macros \<Rightarrow> decode_ctx \<Rightarrow> v4l2_ctrl_h264_decode_params \<Rightarrow> nat \<Rightarrow> (reg \<times> u32) list" where
  "config_ref R ctx dec i =
     [(poc_reg_tbl_top_field ! i, top_field_order_cnt (dpb dec i)),
      (poc_reg_tbl_bottom_field ! i, bottom_field_order_cnt (dpb dec i)),
      (if i < 15 then RKVDEC_REG_H264_BASE_REFER i else RKVDEC_REG_H264_BASE_REFER15,
       ucast (refer_addr R ctx (dpb dec i)))]"

definition config_regs ::
  "reg_macros \<Rightarrow> decode_ctx \<Rightarrow> v4l2_ctrl_h264_decode_params \<Rightarrow> v4l2_ctrl_h264_sps \<Rightarrow>
   (reg \<times> u32) list" where
  "config_regs R ctx dec sps =
     [(RKVDEC_REG_SYSCTRL, RKVDEC_MODE R (RKVDEC_MODE_H264 R)),
      (RKVDEC_REG_PICPAR,
         RKVDEC_Y_HOR_VIRSTRIDE R (hor_virstride sps ctx div 16) OR
         RKVDEC_UV_HOR_VIRSTRIDE R (hor_virstride sps ctx div 16) OR
         RKVDEC_SLICE_NUM_HIGHBIT R OR RKVDEC_SLICE_NUM_LOWBITS R 0x7ff),
      (RKVDEC_REG_STRM_RLC_BASE, ucast (rlc_addr ctx)),
      (RKVDEC_REG_STRM_LEN, RKVDEC_STRM_LEN R (rlc_len ctx)),
      (RKVDEC_REG_CABACTBL_PROB_BASE, ucast (h264_dec_priv_dma ctx + of_nat offsetof_cabac_table)),
      (RKVDEC_REG_DECOUT_BASE, ucast (dst_addr ctx)),
      (RKVDEC_REG_Y_VIRSTRIDE, RKVDEC_Y_VIRSTRIDE R (y_virstride sps ctx div 16)),
      (RKVDEC_REG_YUV_VIRSTRIDE, RKVDEC_YUV_VIRSTRIDE R (yuv_virstride sps ctx div 16))]
     @ concat (map (config_ref R ctx dec) [0..<16])
     @ [(RKVDEC_REG_CUR_POC0, RKVDEC_CUR_POC R (dec_top_field_order_cnt dec)),
        (RKVDEC_REG_CUR_POC1, RKVDEC_CUR_POC R (dec_bottom_field_order_cnt dec)),
        (RKVDEC_REG_PPS_BASE, ucast (h264_dec_priv_dma ctx + of_nat offsetof_param_set)),
        (RKVDEC_REG_RPS_BASE, ucast (h264_dec_priv_dma ctx + of_nat offsetof_rps)),
        (RKVDEC_REG_AXI_DDR_RDATA, RKVDEC_AXI_DDR_RDATA R 0),
        (RKVDEC_REG_AXI_DDR_WDATA, RKVDEC_AXI_DDR_WDATA R 0),
        (RKVDEC_REG_H264_ERRINFO_BASE, ucast (h264_dec_priv_dma ctx + of_nat offsetof_err_info))]"

text \<open>The registers of the loop over the DPB slots.\<close>

fun dpb_slot_reg :: "reg \<Rightarrow> bool" where
  "dpb_slot_reg (RKVDEC_REG_H264_POC_REFER0 n) = True"
| "dpb_slot_reg (RKVDEC_REG_H264_POC_REFER1 n) = True"
| "dpb_slot_reg (RKVDEC_REG_H264_POC_REFER2 n) = True"
| "dpb_slot_reg (RKVDEC_REG_H264_BASE_REFER n) = True"
| "dpb_slot_reg RKVDEC_REG_H264_BASE_REFER15 = True"
| "dpb_slot_reg r = False"

text \<open>The values written to one register, in order.\<close>

definition reg_writes :: "reg \<Rightarrow> (reg \<times> u32) list \<Rightarrow> u32 list" where
  "reg_writes r ws = map snd (filter (\<lambda>w. fst w = r) ws)"

text \<open>
  Inputs to run the builder on: a 1920 by 1080 destination format, value macros that
  pass their argument through, and the sample frame with a bottom field order count of
  1 beside a top field order count of 0.
\<close>

definition ctx_1080p :: decode_ctx where
  "ctx_1080p =
     \<lparr>dst_fmt_width = 1920, dst_fmt_height = 1080, h264_dec_priv_dma = 0x10000000,
      rlc_addr = 0x20000000, rlc_len = 4096, dst_addr = 0x30000000,
      get_ref = (\<lambda>ts. 0)\<rparr>"

definition plain_macros :: reg_macros where
  "plain_macros =
     \<lparr>RKVDEC_MODE = (\<lambda>x. x), RKVDEC_MODE_H264 = 1,
      RKVDEC_Y_HOR_VIRSTRIDE = (\<lambda>x. x), RKVDEC_UV_HOR_VIRSTRIDE = (\<lambda>x. x),
      RKVDEC_SLICE_NUM_HIGHBIT = 0, RKVDEC_SLICE_NUM_LOWBITS = (\<lambda>x. x),
      RKVDEC_STRM_LEN = (\<lambda>x. x), RKVDEC_Y_VIRSTRIDE = (\<lambda>x. x),
      RKVDEC_YUV_VIRSTRIDE = (\<lambda>x. x), RKVDEC_COLMV_USED_FLAG_REF = 0,
      RKVDEC_TOPFIELD_USED_REF = 0, RKVDEC_BOTFIELD_USED_REF = 0,
      RKVDEC_CUR_POC = (\<lambda>x. x), RKVDEC_AXI_DDR_RDATA = (\<lambda>x. x),
      RKVDEC_AXI_DDR_WDATA = (\<lambda>x. x)\<rparr>"

definition split_poc_params :: v4l2_ctrl_h264_decode_params where
  "split_poc_params = p_frame_params\<lparr>dec_bottom_field_order_cnt := 1\<rparr>"

section \<open>Facts about the bit-field writer\<close>

subsection \<open>Normal forms of a call\<close>

lemma shl32_Some: "unat n < 32 \<Longrightarrow> shl32 x n = Some (push_bit (unat n) x)"
  by (simp add: shl32_def word_less_nat_alt)

lemma shr32_Some: "unat n < 32 \<Longrightarrow> shr32 x n = Some (drop_bit (unat n) x)"
  by (simp add: shr32_def word_less_nat_alt)

lemma shl32_None: "32 \<le> unat n \<Longrightarrow> shl32 x n = None"
  by (simp add: shl32_def word_less_nat_alt)

lemma write_header_fit:
  fixes len offset :: u32
  assumes "unat len + unat offset mod 32 \<le> 32" "unat len < 32"
  shows "write_header val m buffer offset len =
     Some (m(buffer + unat offset div 32 :=
        (m (buffer + unat offset div 32) AND NOT (push_bit (unat offset mod 32) (mask (unat len))))
          OR push_bit (unat offset mod 32) val))"
proof -
  have b: "unat (offset mod 32) < 32" by (simp add: unat_mod)
  have s: "unat (len + offset mod 32) = unat len + unat offset mod 32"
    using assms by (simp add: unat_word_ariths unat_mod)
  have c: "\<not> (32 < len + offset mod 32)"
    using assms s by (simp add: word_less_nat_alt)
  show ?thesis
    unfolding write_header_def Let_def
    using c assms b
    by (simp add: shl32_Some mask_eq_decr_exp unat_mod unat_div)
qed

lemma write_header_straddle:
  fixes len offset :: u32
  assumes "32 < unat len + unat offset mod 32" "unat len \<le> 32"
  shows "write_header val m buffer offset len =
     Some (m(buffer + unat offset div 32 :=
        (m (buffer + unat offset div 32) AND NOT (push_bit (unat offset mod 32) (mask (32 - unat offset mod 32))))
          OR push_bit (unat offset mod 32) val,
        buffer + unat offset div 32 + 1 :=
        (m (buffer + unat offset div 32 + 1) AND NOT (mask (unat len + unat offset mod 32 - 32)))
          OR drop_bit (32 - unat offset mod 32) val))"
proof -
  have b: "unat (offset mod 32) < 32" "0 < unat offset mod 32"
    using assms by (simp_all add: unat_mod)
  have s: "unat (len + offset mod 32) = unat len + unat offset mod 32"
    using assms by (simp add: unat_word_ariths unat_mod)
  have c: "32 < len + offset mod 32"
    using assms s by (simp add: word_less_nat_alt)
  have l1: "unat (32 - offset mod 32) = 32 - unat offset mod 32"
    using b by (simp add: unat_sub word_le_nat_alt unat_mod)
  have l2: "unat (len + offset mod 32 - 32) = unat len + unat offset mod 32 - 32"
    using c s by (simp add: unat_sub word_le_nat_alt word_less_nat_alt)
  show ?thesis
    unfolding write_header_def Let_def
    using c assms b l1 l2
    by (simp add: shl32_Some shr32_Some mask_eq_decr_exp unat_mod unat_div)
qed

lemma write_header_defined:
  fixes len offset :: u32
  assumes "unat len \<le> 32" and "\<not> (unat len = 32 \<and> unat offset mod 32 = 0)"
  shows "\<exists>m'. write_header val m buffer offset len = Some m'"
proof (cases "32 < unat len + unat offset mod 32")
  case True
  then show ?thesis using assms by (simp add: write_header_straddle)
next
  case False
  then have "unat len + unat offset mod 32 \<le> 32" "unat len < 32"
    using assms by auto
  then show ?thesis by (simp add: write_header_fit)
qed


text \<open>Each word a call writes is computed from the old content of that word alone.\<close>

lemma write_header_cong:
  assumes "write_header val m1 buffer offset len = Some m1'"
    and "write_header val m2 buffer offset len = Some m2'"
    and "\<forall>a \<in> A. m1 a = m2 a"
  shows "\<forall>a \<in> A. m1' a = m2' a"
  using assms
  by (auto simp: write_header_def Let_def split: if_splits Option.bind_splits)


lemma write_headers_cong:
  assumes "write_headers ws m1 buffer = Some m1'"
    and "write_headers ws m2 buffer = Some m2'"
    and "\<forall>a \<in> A. m1 a = m2 a"
  shows "\<forall>a \<in> A. m1' a = m2' a"
  using assms
proof (induction ws arbitrary: m1 m2)
  case Nil
  then show ?case by simp
next
  case (Cons w ws)
  obtain val off len where w: "w = (val, off, len)" by (cases w)
  from Cons.prems(1) w obtain n1 where
    n1: "write_header val m1 buffer off len = Some n1" "write_headers ws n1 buffer = Some m1'"
    by (auto split: option.splits)
  from Cons.prems(2) w obtain n2 where
    n2: "write_header val m2 buffer off len = Some n2" "write_headers ws n2 buffer = Some m2'"
    by (auto split: option.splits)
  have "\<forall>a \<in> A. n1 a = n2 a"
    using write_header_cong [OF n1(1) n2(1) Cons.prems(3)] .
  then show ?case
    using Cons.IH [OF n1(2) n2(2)] by blast
qed

text \<open>A 32-bit field at a word-aligned offset: the mask expression is \<open>1 << 32\<close>.\<close>

lemma write_header_aligned_32:
  fixes offset :: u32
  assumes "unat offset mod 32 = 0"
  shows "write_header val m buffer offset 32 = None"
proof -
  have "unat (offset mod 32) = 0"
    using assms by (simp add: unat_mod)
  then have "offset mod 32 = 0"
    by (simp add: unat_eq_zero)
  then show ?thesis
    by (simp add: write_header_def shl32_def)
qed

subsection \<open>Bits of the updated words\<close>

lemma masked_bit: "take_bit n (v::u32) = v \<Longrightarrow> bit v k \<Longrightarrow> k < n"
  by (metis bit_take_bit_iff)

lemma fit_bits:
  fixes x v :: u32
  assumes "take_bit l v = v" "l + b \<le> 32"
  shows "bit ((x AND NOT (push_bit b (mask l))) OR push_bit b v) k =
         (if b \<le> k \<and> k < b + l then bit v (k - b) else bit x k)"
  using masked_bit [OF assms(1), of "k - b"] assms(2)
  by (auto simp: bit_simps dest: bit_imp_le_length)

lemma straddle_lo_bits:
  fixes x v :: u32
  assumes "b < 32" "k < 32"
  shows "bit ((x AND NOT (push_bit b (mask (32 - b)))) OR push_bit b v) k =
         (if b \<le> k then bit v (k - b) else bit x k)"
  using assms
  by (auto simp: bit_simps dest: bit_imp_le_length)

lemma straddle_hi_bits:
  fixes x v :: u32
  assumes "take_bit l v = v" "32 < l + b" "l \<le> 32" "b < 32"
  shows "bit ((x AND NOT (mask (l + b - 32))) OR drop_bit (32 - b) v) k =
         (if k < l + b - 32 then bit v (k + 32 - b) else bit x k)"
  using masked_bit [OF assms(1), of "k + 32 - b"] assms(2-)
  by (auto simp: bit_simps add.commute dest: bit_imp_le_length)

lemma mem_bit_upd:
  "mem_bit (m(W := X)) q = (if q div 32 = W then bit X (q mod 32) else mem_bit m q)"
  by (simp add: mem_bit_def)

lemma in_word_iff: "q div 32 = (W::nat) \<longleftrightarrow> 32 * W \<le> q \<and> q < 32 * W + 32"
  by (auto simp: div_nat_eqI; presburger)

lemma field_fit_bits:
  fixes v :: u32
  assumes V: "take_bit l v = v" and F: "l + b \<le> 32"
  shows "mem_bit (m(W := (m W AND NOT (push_bit b (mask l))) OR push_bit b v)) q =
         (if 32 * W + b \<le> q \<and> q < 32 * W + b + l then bit v (q - (32 * W + b))
          else mem_bit m q)"
proof (cases "q div 32 = W")
  case True
  then have q: "q = 32 * W + q mod 32" by (metis mult_div_mod_eq)
  have a: "(32 * W + b \<le> q \<and> q < 32 * W + b + l) = (b \<le> q mod 32 \<and> q mod 32 < b + l)"
    using q by linarith
  have d: "q - (32 * W + b) = q mod 32 - b" using q by linarith
  show ?thesis
    using True by (simp add: mem_bit_upd fit_bits [OF V F] a d mem_bit_def)
next
  case False
  then have "\<not> (32 * W \<le> q \<and> q < 32 * W + 32)" by (simp add: in_word_iff)
  then have "\<not> (32 * W + b \<le> q \<and> q < 32 * W + b + l)" using F by linarith
  then show ?thesis using False by (auto simp add: mem_bit_upd)
qed

lemma field_straddle_bits:
  fixes v :: u32
  assumes V: "take_bit l v = v" and S: "32 < l + b" and L: "l \<le> 32" and B: "b < 32"
  shows "mem_bit (m(W := (m W AND NOT (push_bit b (mask (32 - b)))) OR push_bit b v,
                    W + 1 := (m (W + 1) AND NOT (mask (l + b - 32))) OR drop_bit (32 - b) v)) q =
         (if 32 * W + b \<le> q \<and> q < 32 * W + b + l then bit v (q - (32 * W + b))
          else mem_bit m q)"
proof -
  consider (lo) "q div 32 = W" | (hi) "q div 32 = W + 1"
    | (out) "q div 32 \<noteq> W" "q div 32 \<noteq> W + 1"
    by blast
  then show ?thesis
  proof cases
    case lo
    then have q: "q = 32 * W + q mod 32" by (metis mult_div_mod_eq)
    have k: "q mod 32 < 32" by simp
    have a: "(32 * W + b \<le> q \<and> q < 32 * W + b + l) = (b \<le> q mod 32)"
      using q k S by linarith
    have d: "q - (32 * W + b) = q mod 32 - b" using q by linarith
    show ?thesis
      using lo by (simp add: mem_bit_upd straddle_lo_bits [OF B k] a d mem_bit_def)
  next
    case hi
    define k where "k = q mod 32"
    have q: "q = 32 * W + 32 + k"
      unfolding k_def using hi
      by (metis mult_div_mod_eq mult_Suc_right Suc_eq_plus1 add.commute add.assoc)
    have k: "k < 32" by (simp add: k_def)
    have a: "(32 * W + b \<le> q \<and> q < 32 * W + b + l) = (k < l + b - 32)"
      using q k S B by auto
    have d: "q - (32 * W + b) = k + 32 - b" using q B by auto
    show ?thesis
      using hi
      by (simp add: mem_bit_upd straddle_hi_bits [OF V S L B] a d mem_bit_def flip: k_def)
  next
    case out
    have "\<not> (32 * W \<le> q \<and> q < 32 * W + 32)"
      using out(1) by (simp add: in_word_iff)
    moreover have "\<not> (32 * W + 32 \<le> q \<and> q < 32 * W + 64)"
      using out(2) in_word_iff [of q "W + 1"] by auto
    ultimately have "\<not> (32 * W + b \<le> q \<and> q < 32 * W + b + l)" using L B by arith
    then show ?thesis using out by (auto simp add: mem_bit_upd)
  qed
qed

text \<open>
  The effect of one call whose value has no bit at or above \<open>len\<close>: the field holds the
  value and every other bit of memory is as before.
\<close>

lemma write_header_masked:
  fixes len offset :: u32
  assumes L: "unat len \<le> 32" and U: "\<not> (unat len = 32 \<and> unat offset mod 32 = 0)"
    and V: "take_bit (unat len) val = val"
  shows "\<exists>m'. write_header val m buffer offset len = Some m' \<and>
     (\<forall>q. mem_bit m' q =
        (if 32 * buffer + unat offset \<le> q \<and> q < 32 * buffer + unat offset + unat len
         then bit val (q - (32 * buffer + unat offset)) else mem_bit m q))"
proof -
  have o: "32 * buffer + unat offset = 32 * (buffer + unat offset div 32) + unat offset mod 32"
    by (simp add: algebra_simps)
  have B: "unat offset mod 32 < 32" by simp
  show ?thesis
  proof (cases "32 < unat len + unat offset mod 32")
    case False
    then have f: "unat len + unat offset mod 32 \<le> 32" "unat len < 32"
      using L U by auto
    show ?thesis
      unfolding o write_header_fit [OF f]
      using field_fit_bits [OF V f(1), of m "buffer + unat offset div 32"] by simp
  next
    case True
    show ?thesis
      unfolding o write_header_straddle [OF True L]
      using field_straddle_bits [OF V True L B, of m "buffer + unat offset div 32"] by simp
  qed
qed

section \<open>Claims about the bit-field writer\<close>




text \<open>
  C3 at offset 0 and length 32, inside the claimed range: the call takes the one-word
  branch, whose mask is \<open>(1 << 32) - 1\<close>; the shift count equals the width of \<open>int\<close>,
  so the C expression has no defined value and the call has no defined result.
\<close>

theorem write_header_offset_0_len_32_undefined:
  "write_header val m buffer 0 32 = None"
  by (simp add: write_header_def shl32_def)

section \<open>Facts about the RPS assembler\<close>

lemma load_store_u16:
  "load_u16 (store_u16 m i v) j = (if i = j then v else load_u16 m j)"
proof (cases "i div 2 = j div 2")
  case False
  then have "i \<noteq> j" by auto
  with False show ?thesis by (simp add: load_u16_def store_u16_def)
next
  case True
  have e: "i = j \<longleftrightarrow> i mod 2 = j mod 2" using True by (metis div_mult_mod_eq)
  show ?thesis
    apply (rule bit_word_eqI)
    using True e
    apply (cases "i mod 2 = 0"; cases "j mod 2 = 0")
    apply (auto simp: load_u16_def store_u16_def bit_simps dest: bit_imp_le_length)
    done
qed

lemma store_u16_other: "a \<noteq> i div 2 \<Longrightarrow> store_u16 m i v a = m a"
  by (simp add: store_u16_def)

lemma fold_store_u16_load:
  "i < n \<Longrightarrow> load_u16 (fold (\<lambda>i m. store_u16 m i (f i)) [0..<n] m) i = f i"
  by (induction n) (auto simp: load_store_u16 less_Suc_eq)

lemma fold_store_u16_other:
  "n \<le> 2 * a \<Longrightarrow> fold (\<lambda>i m. store_u16 m i (f i)) [0..<n] m a = m a"
  by (induction n) (auto simp: store_u16_other)


lemma write_header_frame:
  assumes "write_header val m buffer offset len = Some m'"
    and "a \<noteq> buffer + unat offset div 32" and "a \<noteq> buffer + unat offset div 32 + 1"
  shows "m' a = m a"
  using assms
  by (auto simp: write_header_def Let_def unat_div split: if_splits Option.bind_splits)

lemma write_headers_frame:
  assumes "\<forall>w \<in> set ws. unat (snd (snd w)) < 32"
  shows "\<exists>m'. write_headers ws m buffer = Some m' \<and>
     (\<forall>a. (\<forall>w \<in> set ws. a \<noteq> buffer + unat (fst (snd w)) div 32 \<and>
                          a \<noteq> buffer + unat (fst (snd w)) div 32 + 1) \<longrightarrow> m' a = m a)"
  using assms
proof (induction ws arbitrary: m)
  case Nil
  then show ?case by simp
next
  case (Cons w ws)
  obtain val off len where w: "w = (val, off, len)" by (cases w)
  from Cons.prems w have "unat len < 32" by simp
  then obtain m1 where m1: "write_header val m buffer off len = Some m1"
    using write_header_defined [of len off] by force
  from Cons.IH [of m1] Cons.prems obtain m' where
    m': "write_headers ws m1 buffer = Some m'"
    and f: "\<And>a. (\<forall>w \<in> set ws. a \<noteq> buffer + unat (fst (snd w)) div 32 \<and>
                          a \<noteq> buffer + unat (fst (snd w)) div 32 + 1) \<Longrightarrow> m' a = m1 a"
    by auto
  show ?case
    using m1 m' f write_header_frame [OF m1] by (auto simp: w)
qed

lemma write_headers_masked:
  assumes "\<forall>w \<in> set ws. unat (snd (snd w)) < 32 \<and>
             take_bit (unat (snd (snd w))) (fst w) = fst w"
  shows "\<exists>m'. write_headers ws m buffer = Some m' \<and>
     (\<forall>q. (\<forall>w \<in> set ws. \<not> (32 * buffer + unat (fst (snd w)) \<le> q \<and>
                    q < 32 * buffer + unat (fst (snd w)) + unat (snd (snd w)))) \<longrightarrow>
          mem_bit m' q = mem_bit m q)"
  using assms
proof (induction ws arbitrary: m)
  case Nil
  then show ?case by simp
next
  case (Cons w ws)
  obtain val off len where w: "w = (val, off, len)" by (cases w)
  from Cons.prems w have l: "unat len \<le> 32" "\<not> (unat len = 32 \<and> unat off mod 32 = 0)"
    and v: "take_bit (unat len) val = val" by auto
  from write_header_masked [OF l v, of m buffer] obtain m1 where
    m1: "write_header val m buffer off len = Some m1"
    and b1: "\<And>q. mem_bit m1 q =
        (if 32 * buffer + unat off \<le> q \<and> q < 32 * buffer + unat off + unat len
         then bit val (q - (32 * buffer + unat off)) else mem_bit m q)"
    by blast
  from Cons.IH [of m1] Cons.prems obtain m' where
    m': "write_headers ws m1 buffer = Some m'"
    and f: "\<And>q. (\<forall>w \<in> set ws. \<not> (32 * buffer + unat (fst (snd w)) \<le> q \<and>
                    q < 32 * buffer + unat (fst (snd w)) + unat (snd (snd w)))) \<Longrightarrow>
          mem_bit m' q = mem_bit m1 q"
    by auto
  show ?case
    using m1 m' f b1 by (auto simp: w)
qed

lemma concat_map_filter_product:
  "concat (map (\<lambda>j. concat (map (\<lambda>i. if P j i then [f j i] else []) is)) js) =
   map (\<lambda>(j, i). f j i) (filter (\<lambda>(j, i). P j i) (List.product js is))"
proof (induction js)
  case Nil
  then show ?case by simp
next
  case (Cons j js)
  have "concat (map (\<lambda>i. if P j i then [f j i] else []) is) =
        map (\<lambda>(j, i). f j i) (filter (\<lambda>(j, i). P j i) (map (Pair j) is))"
    by (induction "is") auto
  with Cons show ?case by simp
qed

lemma mem_word_eqI:
  assumes "\<And>q. q div 32 = a \<Longrightarrow> mem_bit m' q = mem_bit m q"
  shows "m' a = m a"
proof (rule bit_word_eqI)
  fix k assume "k < LENGTH(32)"
  then have "(32 * a + k) div 32 = a" "(32 * a + k) mod 32 = k" by simp_all
  with assms [of "32 * a + k"] show "bit (m' a) k = bit (m a) k"
    by (simp add: mem_bit_def)
qed


lemma rps_ref_writes_eq:
  "rps_ref_writes L dec =
     map (\<lambda>(j, i). (dpb_info dec (rps_idx dec j i), DPB_INFO_OFF L i j, DPB_INFO_LEN L))
       (filter (\<lambda>(j, i). unat (rps_idx dec j i) < 16) rps_positions)"
proof -
  have "rps_ref_write L dec j i =
      (if unat (rps_idx dec j i) < 16
       then [(dpb_info dec (rps_idx dec j i), DPB_INFO_OFF L i j, DPB_INFO_LEN L)] else [])"
    for j i
    by (simp add: rps_ref_write_def Let_def not_less)
  then have "rps_ref_write L dec =
      (\<lambda>j i. if unat (rps_idx dec j i) < 16
       then [(dpb_info dec (rps_idx dec j i), DPB_INFO_OFF L i j, DPB_INFO_LEN L)] else [])"
    by (intro ext)
  then show ?thesis
    unfolding rps_ref_writes_def rps_positions_def
    by (simp only: concat_map_filter_product)
qed

lemma rps_ref_writes_set:
  assumes "w \<in> set (rps_ref_writes L dec)"
  obtains j i where "j < 3" "i < 32" "unat (rps_idx dec j i) < 16"
    "w = (dpb_info dec (rps_idx dec j i), DPB_INFO_OFF L i j, DPB_INFO_LEN L)"
  using assms unfolding rps_ref_writes_eq rps_positions_def by auto

lemma dpb_info_bits:
  assumes "unat idx < 16" "bit (dpb_info dec idx) k"
  shows "k < 5"
proof -
  have "idx < 2 ^ 4" using assms(1) by (simp add: word_less_nat_alt)
  then have "take_bit 4 idx = idx" by (simp add: less_mask_eq take_bit_eq_mask)
  then have "bit idx n \<Longrightarrow> n < 4" for n by (metis bit_take_bit_iff)
  then have "bit idx n \<Longrightarrow> n < 5" for n by fastforce
  then show ?thesis
    using assms(2) by (auto simp: dpb_info_def Let_def bit_simps split: if_splits)
qed

lemma dpb_info_masked:
  assumes "unat idx < 16" "5 \<le> n"
  shows "take_bit n (dpb_info dec idx) = dpb_info dec idx"
proof (rule bit_word_eqI)
  fix k
  show "bit (take_bit n (dpb_info dec idx)) k = bit (dpb_info dec idx) k"
    using dpb_info_bits [OF assms(1), of dec k] assms(2)
    by (auto simp: bit_simps)
qed


lemma sample_rps_off:
  "i < 32 \<Longrightarrow> j < 3 \<Longrightarrow> unat (DPB_INFO_OFF sample_rps_layout i j) = 288 + 224 * j + 7 * i"
proof -
  assume "i < 32" "j < 3"
  then have "288 + 224 * j + 7 * i < 2 ^ LENGTH(32)" by simp
  then have "unat (of_nat (288 + 224 * j + 7 * i) :: u32) = 288 + 224 * j + 7 * i"
    by (rule of_nat_inverse [OF refl])
  then show ?thesis by (simp add: sample_rps_layout_def)
qed

lemma p_frame_idx:
  "j < 3 \<Longrightarrow> unat (rps_idx p_frame_params j i) < 16 \<longleftrightarrow> j = 0 \<and> i = 0"
  by (auto simp: rps_idx_def p_frame_params_def)

lemma store_u16_cong:
  assumes "\<forall>a \<in> A. m1 a = m2 a"
  shows "\<forall>a \<in> A. store_u16 m1 i v a = store_u16 m2 i v a"
  using assms by (simp add: store_u16_def)

lemma fold_store_u16_cong:
  assumes "\<forall>a \<in> A. m1 a = m2 a"
  shows "\<forall>a \<in> A. fold (\<lambda>i m. store_u16 m i (f i)) xs m1 a =
                  fold (\<lambda>i m. store_u16 m i (f i)) xs m2 a"
  using assms
proof (induction xs arbitrary: m1 m2)
  case Nil
  then show ?case by simp
next
  case (Cons x xs)
  from store_u16_cong [OF Cons.prems] show ?case
    by (simp add: Cons.IH)
qed




text \<open>
  C1. In every call of the RPS assembler the first pass leaves in halfword \<open>i\<close> of the
  cleared region, for every DPB slot \<open>i\<close> from 0 to 15, the DPB entry's pic_num when the
  entry's active flag is set and the sentinel \<open>0xFF\<close>, which is not 0, when it is clear.
  The second pass leaves these halfwords alone, so that they are the pic_num values of
  the finished table, whenever the layout lets it run (a DPB-info length below 32, so
  that no shift is undefined) and keeps every DPB-info field at or after bit 256.
\<close>

theorem assemble_hw_rps_pic_num:
  assumes "i < 16"
  shows "load_u16 (rps_pic_nums dec (memset32 m 0 64)) i =
           (if dpb_active (dpb dec i) then pic_num (dpb dec i) else 0xFF) \<and>
         (0xFF :: u16) \<noteq> 0 \<and>
         (unat (DPB_INFO_LEN L) < 32 \<and>
          (\<forall>i j. i < 32 \<and> j < 3 \<longrightarrow> 256 \<le> unat (DPB_INFO_OFF L i j)) \<longrightarrow>
          (\<exists>m'. assemble_hw_rps L dec m = Some m' \<and>
             load_u16 m' i = (if dpb_active (dpb dec i) then pic_num (dpb dec i) else 0xFF)))"
proof -
  let ?m1 = "rps_pic_nums dec (memset32 m 0 64)"
  have first: "load_u16 ?m1 i = (if dpb_active (dpb dec i) then pic_num (dpb dec i) else 0xFF)"
  proof -
    have "load_u16 ?m1 i = rps_pic_num dec i"
      unfolding rps_pic_nums_def using assms by (rule fold_store_u16_load)
    then show ?thesis by (simp add: rps_pic_num_def)
  qed
  have final: "\<exists>m'. assemble_hw_rps L dec m = Some m' \<and>
             load_u16 m' i = (if dpb_active (dpb dec i) then pic_num (dpb dec i) else 0xFF)"
    if l: "unat (DPB_INFO_LEN L) < 32"
      and o: "\<forall>i j. i < 32 \<and> j < 3 \<longrightarrow> 256 \<le> unat (DPB_INFO_OFF L i j)"
  proof -
    have len: "\<forall>w \<in> set (rps_ref_writes L dec). unat (snd (snd w)) < 32"
      using l by (auto elim!: rps_ref_writes_set)
    from write_headers_frame [OF len, of ?m1 0] obtain m' where
      m': "write_headers (rps_ref_writes L dec) ?m1 0 = Some m'"
      and f: "\<And>a. (\<forall>w \<in> set (rps_ref_writes L dec). a \<noteq> 0 + unat (fst (snd w)) div 32 \<and>
                          a \<noteq> 0 + unat (fst (snd w)) div 32 + 1) \<Longrightarrow> m' a = ?m1 a"
      by blast
    have "\<forall>w \<in> set (rps_ref_writes L dec). i div 2 \<noteq> 0 + unat (fst (snd w)) div 32 \<and>
                          i div 2 \<noteq> 0 + unat (fst (snd w)) div 32 + 1"
    proof
      fix w assume "w \<in> set (rps_ref_writes L dec)"
      then obtain j k where "j < 3" "k < 32" "fst (snd w) = DPB_INFO_OFF L k j"
        by (auto elim!: rps_ref_writes_set)
      then have "256 \<le> unat (fst (snd w))" using o by simp
      then have "8 \<le> unat (fst (snd w)) div 32" by simp
      moreover have "i div 2 < 8" using assms by simp
      ultimately show "i div 2 \<noteq> 0 + unat (fst (snd w)) div 32 \<and>
                          i div 2 \<noteq> 0 + unat (fst (snd w)) div 32 + 1" by simp
    qed
    then have "m' (i div 2) = ?m1 (i div 2)" by (rule f)
    then have "load_u16 m' i = load_u16 ?m1 i" by (simp add: load_u16_def)
    with first m' show ?thesis by (auto simp: assemble_hw_rps_def)
  qed
  show ?thesis
    using first final by simp
qed

text \<open>The sample frame over a table of all-ones: slot 0 reads its pic_num 3, slot 1 is
  inactive and reads \<open>0xFF\<close>.\<close>

theorem assemble_hw_rps_pic_num_witness:
  "\<exists>m'. assemble_hw_rps sample_rps_layout p_frame_params (\<lambda>a. 0xFFFFFFFF) = Some m' \<and>
        load_u16 m' 0 = 3 \<and> load_u16 m' 1 = 0xFF"
proof -
  have l: "unat (DPB_INFO_LEN sample_rps_layout) < 32 \<and>
      (\<forall>i j. i < 32 \<and> j < 3 \<longrightarrow> 256 \<le> unat (DPB_INFO_OFF sample_rps_layout i j))"
    by (simp add: sample_rps_off) (simp add: sample_rps_layout_def)
  have a: "dpb_active (dpb p_frame_params 0)" "\<not> dpb_active (dpb p_frame_params 1)"
    "pic_num (dpb p_frame_params 0) = 3"
    by (simp_all add: p_frame_params_def dpb_active_def V4L2_H264_DPB_ENTRY_FLAG_ACTIVE_def)
  have i: "(0::nat) < 16" "(1::nat) < 16" by simp_all
  from assemble_hw_rps_pic_num [OF i(1), of p_frame_params "\<lambda>a. 0xFFFFFFFF" sample_rps_layout] l a
  obtain m' where m': "assemble_hw_rps sample_rps_layout p_frame_params (\<lambda>a. 0xFFFFFFFF) = Some m'"
    and s0: "load_u16 m' 0 = 3"
    by auto
  from assemble_hw_rps_pic_num [OF i(2), of p_frame_params "\<lambda>a. 0xFFFFFFFF" sample_rps_layout] l a m'
  have "load_u16 m' 1 = 0xFF"
    by auto
  with m' s0 show ?thesis by blast
qed



text \<open>
  C10. The assembler clears the whole 256-byte region before either pass: after every
  call (with a DPB-info length from 5 to 31, so that the packed value fits its field and
  no shift is undefined), every bit of the region after the 16 pic_num halfwords that
  lies in no field written for an in-range list entry is zero, whatever the region held
  before. This covers the DPB-info field of every position whose list entry is out of
  range, as far as no written field overlaps it, and every other byte of the region
  that the two passes do not write. Moreover the 64 words of the region after the call
  are the same for every earlier content of the table: nothing of a previous frame's
  assembly survives in the region.
\<close>

theorem assemble_hw_rps_rest_zero:
  assumes "5 \<le> unat (DPB_INFO_LEN L)" and "unat (DPB_INFO_LEN L) < 32"
  shows "\<exists>m'. assemble_hw_rps L dec m = Some m' \<and>
     (\<forall>q. 256 \<le> q \<and> q < 2048 \<and>
          (\<forall>j<3. \<forall>i<32. unat (rps_idx dec j i) < 16 \<longrightarrow>
             \<not> (unat (DPB_INFO_OFF L i j) \<le> q \<and>
                q < unat (DPB_INFO_OFF L i j) + unat (DPB_INFO_LEN L)))
        \<longrightarrow> \<not> mem_bit m' q) \<and>
     (\<forall>m0. \<exists>m0'. assemble_hw_rps L dec m0 = Some m0' \<and> (\<forall>a<64. m0' a = m' a))"
proof -
  let ?m1 = "rps_pic_nums dec (memset32 m 0 64)"
  have ok: "\<forall>w \<in> set (rps_ref_writes L dec). unat (snd (snd w)) < 32 \<and>
             take_bit (unat (snd (snd w))) (fst w) = fst w"
    using assms by (auto elim!: rps_ref_writes_set simp: dpb_info_masked)
  from write_headers_masked [OF ok, of ?m1 0] obtain m' where
    m': "write_headers (rps_ref_writes L dec) ?m1 0 = Some m'"
    and f: "\<And>q. (\<forall>w \<in> set (rps_ref_writes L dec). \<not> (32 * 0 + unat (fst (snd w)) \<le> q \<and>
                    q < 32 * 0 + unat (fst (snd w)) + unat (snd (snd w)))) \<Longrightarrow>
          mem_bit m' q = mem_bit ?m1 q"
    by blast
  have zero: "\<not> mem_bit m' q"
    if q: "256 \<le> q" "q < 2048"
      and u: "\<forall>j<3. \<forall>i<32. unat (rps_idx dec j i) < 16 \<longrightarrow>
             \<not> (unat (DPB_INFO_OFF L i j) \<le> q \<and>
                q < unat (DPB_INFO_OFF L i j) + unat (DPB_INFO_LEN L))" for q
  proof -
    have "\<forall>w \<in> set (rps_ref_writes L dec). \<not> (32 * 0 + unat (fst (snd w)) \<le> q \<and>
                    q < 32 * 0 + unat (fst (snd w)) + unat (snd (snd w)))"
      using u by (auto elim!: rps_ref_writes_set)
    then have "mem_bit m' q = mem_bit ?m1 q" by (rule f)
    moreover have "?m1 (q div 32) = memset32 m 0 64 (q div 32)"
      unfolding rps_pic_nums_def using q(1) by (intro fold_store_u16_other) simp
    moreover have "q div 32 < 64" using q(2) by simp
    then have "memset32 m 0 64 (q div 32) = 0"
      by (simp add: memset32_def)
    ultimately show ?thesis by (simp add: mem_bit_def)
  qed
  have fresh: "\<exists>m0'. assemble_hw_rps L dec m0 = Some m0' \<and> (\<forall>a<64. m0' a = m' a)" for m0
  proof -
    let ?n1 = "rps_pic_nums dec (memset32 m0 0 64)"
    from write_headers_masked [OF ok, of ?n1 0] obtain m0' where
      m0': "write_headers (rps_ref_writes L dec) ?n1 0 = Some m0'" by blast
    have "\<forall>a \<in> {..<64}. memset32 m0 0 64 a = memset32 m 0 64 a"
      by (simp add: memset32_def)
    then have "\<forall>a \<in> {..<64}. ?n1 a = ?m1 a"
      unfolding rps_pic_nums_def by (rule fold_store_u16_cong)
    from write_headers_cong [OF m0' m' this] m0'
    show ?thesis by (simp add: assemble_hw_rps_def)
  qed
  show ?thesis
    using m' zero fresh by (auto simp: assemble_hw_rps_def)
qed

text \<open>
  The sample frame over a table of all-ones: bit 295, the first bit of the skipped
  position 1 of the P0 list, and bit 2047, the last bit of the region, are zero.
\<close>

theorem assemble_hw_rps_rest_zero_witness:
  "\<exists>m'. assemble_hw_rps sample_rps_layout p_frame_params (\<lambda>a. 0xFFFFFFFF) = Some m' \<and>
        \<not> mem_bit m' 295 \<and> \<not> mem_bit m' 2047"
proof -
  have l: "5 \<le> unat (DPB_INFO_LEN sample_rps_layout)" "unat (DPB_INFO_LEN sample_rps_layout) < 32"
    by (simp_all add: sample_rps_layout_def)
  from assemble_hw_rps_rest_zero [OF l, of p_frame_params "\<lambda>a. 0xFFFFFFFF"]
  obtain m' where
    m': "assemble_hw_rps sample_rps_layout p_frame_params (\<lambda>a. 0xFFFFFFFF) = Some m'"
    and z: "\<And>q. 256 \<le> q \<Longrightarrow> q < 2048 \<Longrightarrow>
          (\<forall>j<3. \<forall>i<32. unat (rps_idx p_frame_params j i) < 16 \<longrightarrow>
             \<not> (unat (DPB_INFO_OFF sample_rps_layout i j) \<le> q \<and>
                q < unat (DPB_INFO_OFF sample_rps_layout i j) +
                    unat (DPB_INFO_LEN sample_rps_layout))) \<Longrightarrow> \<not> mem_bit m' q"
    by blast
  have "\<not> mem_bit m' 295" "\<not> mem_bit m' 2047"
    by (rule z; simp add: p_frame_idx sample_rps_off; simp add: sample_rps_layout_def)+
  with m' show ?thesis by blast
qed

section \<open>Facts about the PPS assembler\<close>









section \<open>Facts about the scaling-list reorderer\<close>

lemma fold_place:
  fixes zz :: "nat list"
  assumes "distinct zz" "n \<le> length zz" "j < n"
  shows "fold (\<lambda>j d. d(dst + zz ! j := src j)) [0..<n] d (dst + zz ! j) = src j"
  using assms(2,3)
proof (induction n)
  case 0
  then show ?case by simp
next
  case (Suc n)
  show ?case
  proof (cases "j = n")
    case True
    then show ?thesis by simp
  next
    case False
    with Suc.prems have j: "j < n" by simp
    then have "zz ! j \<noteq> zz ! n"
      using assms(1) Suc.prems by (simp add: nth_eq_iff_index_eq)
    then have "dst + zz ! j \<noteq> dst + zz ! n" by simp
    moreover from Suc.prems have "n \<le> length zz" by simp
    note Suc.IH [OF this j]
    ultimately show ?thesis by simp
  qed
qed

lemma fold_place_other:
  fixes zz :: "nat list"
  assumes "\<forall>j<n. a \<noteq> dst + zz ! j"
  shows "fold (\<lambda>j d. d(dst + zz ! j := src j)) [0..<n] d a = d a"
  using assms by (induction n) simp_all

lemma reorder_list_place:
  "distinct zz \<Longrightarrow> j < length zz \<Longrightarrow> reorder_list zz src d dst (dst + zz ! j) = src j"
  unfolding reorder_list_def by (rule fold_place) simp_all

lemma reorder_list_other:
  assumes "\<forall>x \<in> set zz. x < length zz" and "\<not> (dst \<le> a \<and> a < dst + length zz)"
  shows "reorder_list zz src d dst a = d a"
  unfolding reorder_list_def
proof (rule fold_place_other, intro allI impI)
  fix j assume "j < length zz"
  then have "zz ! j < length zz" using assms(1) by simp
  then show "a \<noteq> dst + zz ! j" using assms(2) by auto
qed

lemma reorder_lists_other:
  assumes "\<forall>x \<in> set zz. x < length zz" and "\<not> (dst \<le> a \<and> a < dst + n * length zz)"
  shows "reorder_lists zz n srcs d dst a = d a"
  unfolding reorder_lists_def using assms(2)
proof (induction n)
  case 0
  then show ?case by simp
next
  case (Suc n)
  have 1: "\<not> (dst + n * length zz \<le> a \<and> a < dst + n * length zz + length zz)"
    using Suc.prems by (auto simp: algebra_simps)
  have 2: "\<not> (dst \<le> a \<and> a < dst + n * length zz)"
    using Suc.prems by (auto simp: algebra_simps)
  show ?case
    using reorder_list_other [OF assms(1) 1] Suc.IH [OF 2] by simp
qed

lemma reorder_lists_place:
  assumes "distinct zz" and "\<forall>x \<in> set zz. x < length zz" and "i < n" and "j < length zz"
  shows "reorder_lists zz n srcs d dst (dst + i * length zz + zz ! j) = srcs i j"
  unfolding reorder_lists_def using assms(3)
proof (induction n)
  case 0
  then show ?case by simp
next
  case (Suc n)
  show ?case
  proof (cases "i = n")
    case True
    then show ?thesis
      using reorder_list_place [OF assms(1,4)] by simp
  next
    case False
    with Suc.prems have i: "i < n" by simp
    have z: "zz ! j < length zz" using assms(2,4) by simp
    have "(i + 1) * length zz \<le> n * length zz"
      using i by (intro mult_le_mono1) simp
    then have "dst + i * length zz + zz ! j < dst + n * length zz"
      using z by (simp add: algebra_simps)
    then have "\<not> (dst + n * length zz \<le> dst + i * length zz + zz ! j \<and>
        dst + i * length zz + zz ! j < dst + n * length zz + length zz)" by simp
    from reorder_list_other [OF assms(2) this] Suc.IH [OF i]
    show ?thesis by simp
  qed
qed

lemma zig_zag_4x4_perm:
  "distinct zig_zag_4x4" "length zig_zag_4x4 = 16" "\<forall>x \<in> set zig_zag_4x4. x < length zig_zag_4x4"
  by (simp_all add: zig_zag_4x4_def)

lemma zig_zag_8x8_perm:
  "distinct zig_zag_8x8" "length zig_zag_8x8 = 64" "\<forall>x \<in> set zig_zag_8x8. x < length zig_zag_8x8"
  by (simp_all add: zig_zag_8x8_def)

lemma zig_zag_4x4_lt: "\<forall>x \<in> set zig_zag_4x4. x < 16"
  by (simp add: zig_zag_4x4_def)

lemma zig_zag_8x8_lt: "\<forall>x \<in> set zig_zag_8x8. x < 64"
  by (simp add: zig_zag_8x8_def)

lemma perm_onto:
  assumes "distinct zz" and "\<forall>x \<in> set zz. x < length zz" and "k < length zz"
  shows "\<exists>j<length zz. zz ! j = k"
proof -
  have "set zz \<subseteq> {0..<length zz}" using assms(2) by auto
  moreover have "card (set zz) = card {0..<length zz}"
    using assms(1) by (simp add: distinct_card)
  ultimately have "set zz = {0..<length zz}"
    by (intro card_subset_eq) simp_all
  then have "k \<in> set zz" using assms(3) by simp
  then show ?thesis by (simp add: in_set_conv_nth)
qed


lemma reorder_scaling_list_4x4:
  assumes "i < 6" "j < 16"
  shows "reorder_scaling_list s d (16 * i + zig_zag_4x4 ! j) = scaling_list_4x4 s i j"
proof -
  let ?d1 = "reorder_lists zig_zag_4x4 6 (scaling_list_4x4 s) d 0"
  have "zig_zag_4x4 ! j < 16"
    using zig_zag_4x4_perm assms(2) by simp
  then have "16 * i + zig_zag_4x4 ! j < 96" using assms(1) by simp
  then have "\<not> (6 * length zig_zag_4x4 \<le> 16 * i + zig_zag_4x4 ! j \<and>
      16 * i + zig_zag_4x4 ! j < 6 * length zig_zag_4x4 + 6 * length zig_zag_8x8)"
    by (simp add: zig_zag_4x4_perm)
  from reorder_lists_other [OF zig_zag_8x8_perm(3) this]
  have "reorder_scaling_list s d (16 * i + zig_zag_4x4 ! j) = ?d1 (16 * i + zig_zag_4x4 ! j)"
    by (simp add: reorder_scaling_list_def)
  also have "\<dots> = ?d1 (0 + i * length zig_zag_4x4 + zig_zag_4x4 ! j)"
    by (simp add: zig_zag_4x4_perm mult.commute)
  also have "\<dots> = scaling_list_4x4 s i j"
    using assms by (intro reorder_lists_place) (simp_all add: zig_zag_4x4_perm zig_zag_4x4_lt)
  finally show ?thesis .
qed

lemma reorder_scaling_list_8x8:
  assumes "i < 6" "j < 64"
  shows "reorder_scaling_list s d (96 + 64 * i + zig_zag_8x8 ! j) = scaling_list_8x8 s i j"
proof -
  let ?d1 = "reorder_lists zig_zag_4x4 6 (scaling_list_4x4 s) d 0"
  have "reorder_scaling_list s d (96 + 64 * i + zig_zag_8x8 ! j) =
      reorder_lists zig_zag_8x8 6 (scaling_list_8x8 s) ?d1 (6 * length zig_zag_4x4)
        (6 * length zig_zag_4x4 + i * length zig_zag_8x8 + zig_zag_8x8 ! j)"
    by (simp add: reorder_scaling_list_def zig_zag_4x4_perm zig_zag_8x8_perm mult.commute)
  also have "\<dots> = scaling_list_8x8 s i j"
    using assms by (intro reorder_lists_place) (simp_all add: zig_zag_8x8_perm zig_zag_8x8_lt)
  finally show ?thesis .
qed

lemma round_trip:
  assumes p: "distinct zz" "\<forall>x \<in> set zz. x < length zz"
    and len: "length r = length zz"
    and src: "map src [0..<length zz] = raster_to_zigzag zz r"
    and place: "\<And>j. j < length zz \<Longrightarrow> D (base + zz ! j) = src j"
  shows "map (\<lambda>k. D (base + k)) [0..<length zz] = r"
proof (rule nth_equalityI)
  show "length (map (\<lambda>k. D (base + k)) [0..<length zz]) = length r"
    using len by simp
next
  fix k assume "k < length (map (\<lambda>k. D (base + k)) [0..<length zz])"
  then have k: "k < length zz" by simp
  from perm_onto [OF p k] obtain j where j: "j < length zz" "zz ! j = k" by blast
  have "src j = map src [0..<length zz] ! j" using j(1) by simp
  also have "\<dots> = r ! (zz ! j)"
    unfolding src using j(1) by (simp add: raster_to_zigzag_def)
  finally have "src j = r ! k" using j(2) by simp
  with place [OF j(1)] j(2) k
  show "map (\<lambda>k. D (base + k)) [0..<length zz] ! k = r ! k" by simp
qed

text \<open>
  C7. After the reorderer has run, for each of the 6 4x4 lists \<open>i\<close> (16 bytes each, from
  byte \<open>16 * i\<close>) and every coefficient index \<open>j\<close>, the destination byte at
  \<open>zig_zag_4x4[j]\<close> within the list holds source byte \<open>j\<close>; the 6 8x8 lists (64 bytes each)
  follow contiguously from byte 96 with \<open>zig_zag_8x8\<close>. Consequently a list that is the
  zig-zag reordering of a raster list \<open>r\<close> (the inverse permutation) comes out of the
  reorderer as \<open>r\<close>, for both sizes.
\<close>

theorem reorder_scaling_list_places:
  "(\<forall>i<6. \<forall>j<16.
      reorder_scaling_list s d (16 * i + zig_zag_4x4 ! j) = scaling_list_4x4 s i j) \<and>
   (\<forall>i<6. \<forall>j<64.
      reorder_scaling_list s d (96 + 64 * i + zig_zag_8x8 ! j) = scaling_list_8x8 s i j) \<and>
   (\<forall>i<6. \<forall>r. length r = 16 \<and>
        map (scaling_list_4x4 s i) [0..<16] = raster_to_zigzag zig_zag_4x4 r \<longrightarrow>
      map (\<lambda>k. reorder_scaling_list s d (16 * i + k)) [0..<16] = r) \<and>
   (\<forall>i<6. \<forall>r. length r = 64 \<and>
        map (scaling_list_8x8 s i) [0..<64] = raster_to_zigzag zig_zag_8x8 r \<longrightarrow>
      map (\<lambda>k. reorder_scaling_list s d (96 + 64 * i + k)) [0..<64] = r)"
proof (intro conjI allI impI)
  fix i j :: nat assume "i < 6" "j < 16"
  then show "reorder_scaling_list s d (16 * i + zig_zag_4x4 ! j) = scaling_list_4x4 s i j"
    by (rule reorder_scaling_list_4x4)
next
  fix i j :: nat assume "i < 6" "j < 64"
  then show "reorder_scaling_list s d (96 + 64 * i + zig_zag_8x8 ! j) = scaling_list_8x8 s i j"
    by (rule reorder_scaling_list_8x8)
next
  fix i :: nat and r :: "u8 list"
  assume i: "i < 6"
    and r: "length r = 16 \<and> map (scaling_list_4x4 s i) [0..<16] = raster_to_zigzag zig_zag_4x4 r"
  have "map (\<lambda>k. reorder_scaling_list s d (16 * i + k)) [0..<length zig_zag_4x4] = r"
    using r i
    by (intro round_trip [where src = "scaling_list_4x4 s i"])
      (simp_all add: zig_zag_4x4_perm zig_zag_4x4_lt reorder_scaling_list_4x4)
  then show "map (\<lambda>k. reorder_scaling_list s d (16 * i + k)) [0..<16] = r"
    by (simp add: zig_zag_4x4_perm)
next
  fix i :: nat and r :: "u8 list"
  assume i: "i < 6"
    and r: "length r = 64 \<and> map (scaling_list_8x8 s i) [0..<64] = raster_to_zigzag zig_zag_8x8 r"
  have "map (\<lambda>k. reorder_scaling_list s d (96 + 64 * i + k)) [0..<length zig_zag_8x8] = r"
    using r i
    by (intro round_trip [where src = "scaling_list_8x8 s i"])
      (simp_all add: zig_zag_8x8_perm zig_zag_8x8_lt reorder_scaling_list_8x8)
  then show "map (\<lambda>k. reorder_scaling_list s d (96 + 64 * i + k)) [0..<64] = r"
    by (simp add: zig_zag_8x8_perm)
qed

text \<open>
  In the sample matrix entry 2 of 4x4 list 1 is 18 and lands at byte \<open>16 + 4\<close>; entry 2
  of 8x8 list 0 is 2 and lands at byte \<open>96 + 8\<close>.
\<close>

theorem reorder_scaling_list_places_witness:
  "reorder_scaling_list sample_matrix (\<lambda>a. 0) 20 = 18 \<and>
   reorder_scaling_list sample_matrix (\<lambda>a. 0) 104 = 2"
proof -
  have a: "zig_zag_4x4 ! 2 = 4" "zig_zag_8x8 ! 2 = 8"
    by (simp_all add: zig_zag_4x4_def zig_zag_8x8_def)
  have "reorder_scaling_list sample_matrix (\<lambda>a. 0) (16 * 1 + zig_zag_4x4 ! 2) =
      scaling_list_4x4 sample_matrix 1 2"
    using reorder_scaling_list_places [of sample_matrix "\<lambda>a. 0",
        THEN conjunct1, rule_format, of 1 2] by simp
  moreover have "reorder_scaling_list sample_matrix (\<lambda>a. 0) (96 + 64 * 0 + zig_zag_8x8 ! 2) =
      scaling_list_8x8 sample_matrix 0 2"
    using reorder_scaling_list_places [of sample_matrix "\<lambda>a. 0",
        THEN conjunct2, THEN conjunct1, rule_format, of 0 2] by simp
  ultimately show ?thesis
    by (simp add: a sample_matrix_def)
qed

section \<open>Facts about the register builder\<close>

lemma poc_tables_slot_regs:
  "\<forall>r \<in> set poc_reg_tbl_top_field. dpb_slot_reg r"
  "\<forall>r \<in> set poc_reg_tbl_bottom_field. dpb_slot_reg r"
  "length poc_reg_tbl_top_field = 16" "length poc_reg_tbl_bottom_field = 16"
  by (simp_all add: poc_reg_tbl_top_field_def poc_reg_tbl_bottom_field_def)

lemma config_ref_slot_regs:
  assumes "i < 16" and "w \<in> set (config_ref R ctx dec i)"
  shows "dpb_slot_reg (fst w)"
proof -
  have "poc_reg_tbl_top_field ! i \<in> set poc_reg_tbl_top_field"
    "poc_reg_tbl_bottom_field ! i \<in> set poc_reg_tbl_bottom_field"
    using assms(1) by (simp_all add: poc_tables_slot_regs(3,4))
  then have "dpb_slot_reg (poc_reg_tbl_top_field ! i)"
    "dpb_slot_reg (poc_reg_tbl_bottom_field ! i)"
    using poc_tables_slot_regs(1,2) by blast+
  then show ?thesis
    using assms(2) by (auto simp: config_ref_def)
qed

lemma config_refs_other_reg:
  assumes "\<not> dpb_slot_reg r"
  shows "filter (\<lambda>w. fst w = r) (concat (map (config_ref R ctx dec) [0..<16])) = []"
proof -
  have "fst w \<noteq> r" if "w \<in> set (concat (map (config_ref R ctx dec) [0..<16]))" for w
  proof -
    from that obtain i where "i < 16" "w \<in> set (config_ref R ctx dec i)" by auto
    then have "dpb_slot_reg (fst w)" by (rule config_ref_slot_regs)
    with assms show ?thesis by auto
  qed
  then show ?thesis
    by (simp add: filter_empty_conv)
qed

lemma config_regs_cur_poc:
  "reg_writes RKVDEC_REG_CUR_POC0 (config_regs R ctx dec sps) =
     [RKVDEC_CUR_POC R (dec_top_field_order_cnt dec)]"
  "reg_writes RKVDEC_REG_CUR_POC1 (config_regs R ctx dec sps) =
     [RKVDEC_CUR_POC R (dec_bottom_field_order_cnt dec)]"
  by (simp_all add: reg_writes_def config_regs_def config_refs_other_reg)

lemma config_regs_virstride:
  "reg_writes RKVDEC_REG_Y_VIRSTRIDE (config_regs R ctx dec sps) =
     [RKVDEC_Y_VIRSTRIDE R (y_virstride sps ctx div 16)]"
  "reg_writes RKVDEC_REG_YUV_VIRSTRIDE (config_regs R ctx dec sps) =
     [RKVDEC_YUV_VIRSTRIDE R (yuv_virstride sps ctx div 16)]"
  by (simp_all add: reg_writes_def config_regs_def config_refs_other_reg)

text \<open>
  C5, as amended. For a frame with width 1920, height 1080, luma bit depth 8 and
  \<open>chroma_format_idc\<close> 1 (4:2:0) the register builder computes a horizontal stride of
  1920, a vertical stride of 1088 (the height 1080 is not a multiple of 16 and is rounded
  up to the next one), a luma plane size of 2,088,960 and a combined YUV size of
  3,133,440 (luma times 1.5); the two size registers receive these sizes divided by 16.
\<close>

theorem config_regs_strides_1080p:
  assumes "bit_depth_luma_minus8 sps = 0" and "chroma_format_idc sps = 1"
    and "dst_fmt_width ctx = 1920" and "dst_fmt_height ctx = 1080"
  shows "hor_virstride sps ctx = 1920 \<and> ver_virstride ctx = 1088 \<and>
         y_virstride sps ctx = 2088960 \<and> yuv_virstride sps ctx = 3133440 \<and>
         reg_writes RKVDEC_REG_Y_VIRSTRIDE (config_regs R ctx dec sps) =
           [RKVDEC_Y_VIRSTRIDE R 130560] \<and>
         reg_writes RKVDEC_REG_YUV_VIRSTRIDE (config_regs R ctx dec sps) =
           [RKVDEC_YUV_VIRSTRIDE R 195840]"
proof -
  have h: "hor_virstride sps ctx = 1920"
    using assms by (simp add: hor_virstride_def)
  have v: "ver_virstride ctx = 1088"
    using assms by (simp add: ver_virstride_def round_up_def)
  have y: "y_virstride sps ctx = 2088960"
    by (simp add: y_virstride_def h v)
  have u: "yuv_virstride sps ctx = 3133440"
    using assms by (simp add: yuv_virstride_def y)
  show ?thesis
    by (simp add: h v y u config_regs_virstride)
qed

text \<open>The 1920 by 1080 context with the sample SPS (8-bit luma, 4:2:0).\<close>

theorem config_regs_strides_1080p_witness:
  "hor_virstride sample_sps ctx_1080p = 1920 \<and> ver_virstride ctx_1080p = 1088 \<and>
   y_virstride sample_sps ctx_1080p = 2088960 \<and> yuv_virstride sample_sps ctx_1080p = 3133440 \<and>
   reg_writes RKVDEC_REG_Y_VIRSTRIDE (config_regs plain_macros ctx_1080p p_frame_params sample_sps)
     = [130560] \<and>
   reg_writes RKVDEC_REG_YUV_VIRSTRIDE (config_regs plain_macros ctx_1080p p_frame_params sample_sps)
     = [195840]"
proof -
  have "bit_depth_luma_minus8 sample_sps = 0" "chroma_format_idc sample_sps = 1"
    "dst_fmt_width ctx_1080p = 1920" "dst_fmt_height ctx_1080p = 1080"
    by (simp_all add: sample_sps_def ctx_1080p_def)
  from config_regs_strides_1080p [OF this, of plain_macros p_frame_params]
  show ?thesis by (simp add: plain_macros_def)
qed

text \<open>
  C5 as stated fails on the vertical stride and on both sizes: 1080 is 67.5 macroblock
  rows, \<open>round_up(1080, 16)\<close> is 1088, and the sizes are those of 1088 rows, not 2,073,600
  and 3,110,400.
\<close>

theorem config_regs_strides_1080p_counterexample:
  "ver_virstride ctx_1080p \<noteq> 1080 \<and> y_virstride sample_sps ctx_1080p \<noteq> 2073600 \<and>
   yuv_virstride sample_sps ctx_1080p \<noteq> 3110400 \<and>
   dst_fmt_width ctx_1080p = 1920 \<and> dst_fmt_height ctx_1080p = 1080 \<and>
   bit_depth_luma_minus8 sample_sps + 8 = 8 \<and> chroma_format_idc sample_sps = 1"
  by (simp add: ver_virstride_def y_virstride_def yuv_virstride_def hor_virstride_def
      round_up_def ctx_1080p_def sample_sps_def)

text \<open>
  C8, as amended. For every frame the register builder writes \<open>CUR_POC0\<close> once, with
  \<open>RKVDEC_CUR_POC\<close> of the decode parameters' top field order count, and \<open>CUR_POC1\<close>
  once, with \<open>RKVDEC_CUR_POC\<close> of their bottom field order count; the two values are
  identical when the two counts are, which the driver expects of frame coding and does
  not enforce.
\<close>

theorem config_regs_cur_poc_top_bottom:
  "reg_writes RKVDEC_REG_CUR_POC0 (config_regs R ctx dec sps) =
     [RKVDEC_CUR_POC R (dec_top_field_order_cnt dec)] \<and>
   reg_writes RKVDEC_REG_CUR_POC1 (config_regs R ctx dec sps) =
     [RKVDEC_CUR_POC R (dec_bottom_field_order_cnt dec)]"
  by (simp add: config_regs_cur_poc)

text \<open>
  C8 as stated fails for decode parameters whose two counts differ: with a top count of
  0 and a bottom count of 1 the two registers receive 0 and 1.
\<close>

theorem config_regs_cur_poc_differ:
  "reg_writes RKVDEC_REG_CUR_POC0 (config_regs plain_macros ctx_1080p split_poc_params sample_sps)
     = [0] \<and>
   reg_writes RKVDEC_REG_CUR_POC1 (config_regs plain_macros ctx_1080p split_poc_params sample_sps)
     = [1]"
  by (simp add: config_regs_cur_poc plain_macros_def split_poc_params_def p_frame_params_def)


end
